theory Spec2Isabelle
  imports Main "HOL-Library.Signed_Division"
begin

unbundle bit_operations_syntax

section \<open>Common ground\<close>

text \<open>
  The C++ \<open>int\<close> values of \<open>udp.cpp\<close> are modelled as mathematical integers; the
  operator \<open>%\<close> of C++ truncates towards zero and is \<open>smod\<close>, not \<open>mod\<close>. Signed
  overflow is undefined in C++ and is not part of the model: every statement below
  speaks about executions whose intermediate values fit an \<open>int\<close>.

  An array access outside the array is undefined behaviour in C++; the model makes it
  a fault that carries the offending index and ends the run.
\<close>

datatype fault = OutOfBounds int

definition in_bounds :: "'a list \<Rightarrow> int \<Rightarrow> bool" where
  "in_bounds xs i = (0 \<le> i \<and> i < int (length xs))"

definition MAX_TIME :: int where
  "MAX_TIME = 1500"

definition seqRange :: "int \<Rightarrow> int" where
  "seqRange windowSize = windowSize * 2 + 1"

section \<open>serverEarlyRetrans\<close>

text \<open>
  The local variables of \<open>serverEarlyRetrans\<close> (lines 199 to 210). The field
  \<open>er_buffer\<close> is the array \<open>bool buffer[seqRange]\<close>.
\<close>

record er_state =
  er_buffer :: "bool list"
  er_lastAckSent :: int
  er_largestAccFrame :: int
  er_msgToAck :: int

definition er_init :: "int \<Rightarrow> er_state" where
  "er_init windowSize =
     \<lparr> er_buffer = replicate (nat (seqRange windowSize)) False,
       er_lastAckSent = seqRange windowSize - 1,
       er_largestAccFrame = windowSize - 1,
       er_msgToAck = 0 \<rparr>"

text \<open>Lines 214 and 215: the offset of a received sequence number.\<close>

definition er_offset :: "int \<Rightarrow> int \<Rightarrow> int \<Rightarrow> int" where
  "er_offset windowSize largestAccFrame m0 =
     windowSize - (seqRange windowSize + largestAccFrame - m0) smod seqRange windowSize"

text \<open>Lines 217 to 219: \<open>if (offset > 0) buffer[message[0]] = true\<close>.\<close>

definition er_mark :: "int \<Rightarrow> er_state \<Rightarrow> int \<Rightarrow> fault + er_state" where
  "er_mark windowSize st m0 =
     (if er_offset windowSize (er_largestAccFrame st) m0 > 0
      then (if in_bounds (er_buffer st) m0
            then Inr (st\<lparr>er_buffer := (er_buffer st)[nat m0 := True]\<rparr>)
            else Inl (OutOfBounds m0))
      else Inr st)"

text \<open>
  Lines 221 to 225: the loop that folds received frames into \<open>lastAckSent\<close>. Each
  iteration lowers the measure below, so the loop always ends.
\<close>

definition er_measure :: "int \<times> er_state \<Rightarrow> nat" where
  "er_measure p =
     2 * length (filter id (er_buffer (snd p))) +
     (if in_bounds (er_buffer (snd p)) (er_lastAckSent (snd p))
         \<and> er_buffer (snd p) ! nat (er_lastAckSent (snd p))
      then 0 else 1)"

function er_advance :: "int \<Rightarrow> er_state \<Rightarrow> fault + er_state" where
  "er_advance windowSize st =
     (if \<not> in_bounds (er_buffer st) ((er_lastAckSent st + 1) smod seqRange windowSize)
      then Inl (OutOfBounds ((er_lastAckSent st + 1) smod seqRange windowSize))
      else if er_buffer st ! nat ((er_lastAckSent st + 1) smod seqRange windowSize)
      then (if \<not> in_bounds (er_buffer st) (er_lastAckSent st)
            then Inl (OutOfBounds (er_lastAckSent st))
            else er_advance windowSize
                   (st\<lparr>er_buffer := (er_buffer st)[nat (er_lastAckSent st) := False],
                       er_lastAckSent := (er_lastAckSent st + 1) smod seqRange windowSize,
                       er_largestAccFrame :=
                         (er_largestAccFrame st + 1) smod seqRange windowSize\<rparr>))
      else Inr st)"
  by pat_completeness auto
termination
proof (relation "measure er_measure")
  show "wf (measure er_measure)" by simp
next
  fix windowSize :: int and st :: er_state
  let ?b = "er_buffer st" and ?l = "er_lastAckSent st"
  let ?n = "(er_lastAckSent st + 1) smod seqRange windowSize"
  assume n_in: "\<not> \<not> in_bounds ?b ?n" and n_set: "?b ! nat ?n"
    and l_in: "\<not> \<not> in_bounds ?b ?l"
  have upd: "length (filter id (xs[i := False])) + (if i < length xs \<and> xs ! i then 1 else 0) =
      length (filter id xs)"
    for xs :: "bool list" and i
  proof (induction xs arbitrary: i)
    case Nil
    show ?case by simp
  next
    case (Cons x xs)
    show ?case
    proof (cases i)
      case 0
      then show ?thesis by simp
    next
      case (Suc j)
      with Cons.IH [of j] show ?thesis by auto
    qed
  qed
  show "((windowSize,
          st\<lparr>er_buffer := ?b[nat ?l := False], er_lastAckSent := ?n,
              er_largestAccFrame := (er_largestAccFrame st + 1) smod seqRange windowSize\<rparr>),
         (windowSize, st)) \<in> measure er_measure"
  proof (cases "?b ! nat ?l")
    case True
    with l_in upd [of ?b "nat ?l"]
    have "length (filter id (?b[nat ?l := False])) + 1 = length (filter id ?b)"
      by (auto simp: in_bounds_def nat_less_iff split: if_splits)
    with True l_in show ?thesis
      by (simp add: er_measure_def in_bounds_def)
  next
    case False
    then have "?b ! nat ?l = False" by simp
    then have same: "?b[nat ?l := False] = ?b"
      by (metis list_update_id)
    from False n_set have "nat ?n \<noteq> nat ?l" by auto
    with False n_in n_set l_in show ?thesis
      by (simp add: er_measure_def same in_bounds_def)
  qed
qed

declare er_advance.simps [simp del]

text \<open>
  One pass of the \<open>do\<close> loop (lines 213 to 229): receive a frame whose first word is
  \<open>m0\<close>, mark it, fold, acknowledge. The result lists the values handed to
  \<open>ackTo\<close>. The loop repeats while \<open>offset <= 0\<close>; otherwise \<open>msgToAck\<close> is
  incremented by the enclosing \<open>for\<close>.
\<close>

definition er_receive :: "int \<Rightarrow> er_state \<Rightarrow> int \<Rightarrow> fault + (er_state \<times> int list)" where
  "er_receive windowSize st m0 =
     (case er_mark windowSize st m0 of
        Inl e \<Rightarrow> Inl e
      | Inr st1 \<Rightarrow>
         (case er_advance windowSize st1 of
            Inl e \<Rightarrow> Inl e
          | Inr st2 \<Rightarrow>
              Inr (if er_offset windowSize (er_largestAccFrame st) m0 \<le> 0
                   then st2
                   else st2\<lparr>er_msgToAck := er_msgToAck st2 + 1\<rparr>,
                   [(er_lastAckSent st2 + 1) smod seqRange windowSize])))"

text \<open>
  The whole function, run on the first words of the frames that \<open>recvFrom\<close> delivers,
  in order. It returns the state and the acknowledgments sent, either when \<open>max\<close>
  messages were counted or when the frames are used up (the server then blocks in
  \<open>recvFrom\<close>).
\<close>

fun er_loop :: "int \<Rightarrow> int \<Rightarrow> er_state \<Rightarrow> int list \<Rightarrow> fault + (er_state \<times> int list)" where
  "er_loop windowSize max_msgs st [] = Inr (st, [])"
| "er_loop windowSize max_msgs st (m0 # frames) =
     (if er_msgToAck st < max_msgs
      then (case er_receive windowSize st m0 of
              Inl e \<Rightarrow> Inl e
            | Inr (st1, acks1) \<Rightarrow>
               (case er_loop windowSize max_msgs st1 frames of
                  Inl e \<Rightarrow> Inl e
                | Inr (st2, acks2) \<Rightarrow> Inr (st2, acks1 @ acks2)))
      else Inr (st, []))"

definition serverEarlyRetrans :: "int \<Rightarrow> int \<Rightarrow> int list \<Rightarrow> fault + (er_state \<times> int list)" where
  "serverEarlyRetrans max_msgs windowSize frames = er_loop windowSize max_msgs (er_init windowSize) frames"

text \<open>
  What holds of the state between two frames: the array has \<open>seqRange\<close> entries and
  \<open>lastAckSent\<close> indexes it (\<open>er_wf\<close>); moreover the entry after \<open>lastAckSent\<close> is
  free, which is the exit condition of the loop of lines 221 to 225 (\<open>er_settled\<close>).
\<close>

definition er_wf :: "int \<Rightarrow> er_state \<Rightarrow> bool" where
  "er_wf windowSize st =
     (0 < windowSize \<and> length (er_buffer st) = nat (seqRange windowSize)
      \<and> 0 \<le> er_lastAckSent st \<and> er_lastAckSent st < seqRange windowSize)"

definition er_settled :: "int \<Rightarrow> er_state \<Rightarrow> bool" where
  "er_settled windowSize st =
     (er_wf windowSize st
      \<and> \<not> er_buffer st ! nat ((er_lastAckSent st + 1) mod seqRange windowSize))"

section \<open>serverReliable\<close>

text \<open>
  Line 80: \<open>while (message[0] != msgToAck & 1)\<close>. In C++ \<open>!=\<close> binds tighter than
  \<open>&\<close>, so the condition is \<open>(message[0] != msgToAck) & 1\<close>: the comparison yields 0
  or 1, which is then masked.
\<close>

definition sr_again :: "int \<Rightarrow> int \<Rightarrow> bool" where
  "sr_again message0 msgToAck = ((of_bool (message0 \<noteq> msgToAck) AND (1::int)) \<noteq> 0)"

text \<open>
  The function on the first words of the frames that \<open>recvFrom\<close> delivers: every
  frame is acknowledged with its own first word (line 78); \<open>msgToAck\<close> moves on when
  the condition of line 80 is false. The result is the value of \<open>msgToAck\<close> reached
  and the acknowledgments sent.
\<close>

fun sr_loop :: "int \<Rightarrow> int \<Rightarrow> int list \<Rightarrow> int \<times> int list" where
  "sr_loop max_msgs msgToAck [] = (msgToAck, [])"
| "sr_loop max_msgs msgToAck (m0 # frames) =
     (if msgToAck < max_msgs
      then (case sr_loop max_msgs (if sr_again m0 msgToAck then msgToAck else msgToAck + 1) frames of
              (n, acks) \<Rightarrow> (n, m0 # acks))
      else (msgToAck, []))"

definition serverReliable :: "int \<Rightarrow> int list \<Rightarrow> int \<times> int list" where
  "serverReliable max_msgs frames = sr_loop max_msgs 0 frames"

section \<open>clientStopWait\<close>

text \<open>
  What one evaluation of \<open>sock.pollRecvFrom()\<close> in the loop of line 46 finds: nothing,
  and then \<open>timeout.lap()\<close> is read (its value is carried), or a datagram, whose first
  \<open>int\<close> the \<open>recvFrom\<close> of line 54 stores in \<open>seqNum\<close>.
\<close>

datatype sw_poll = NoData int | Data int

text \<open>
  The variables of \<open>clientStopWait\<close>; \<open>sw_sent\<close> lists the first word of every frame
  handed to \<open>sendTo\<close>, in order.
\<close>

record sw_state =
  sw_retrans :: int
  sw_seqNum :: int
  sw_message0 :: int
  sw_sent :: "int list"

text \<open>Lines 46 to 54. \<open>None\<close>: the polls are used up and the client is still waiting.\<close>

fun sw_wait :: "sw_state \<Rightarrow> sw_poll list \<Rightarrow> (sw_state \<times> sw_poll list) option" where
  "sw_wait st [] = None"
| "sw_wait st (NoData lap # polls) =
     sw_wait (if lap > MAX_TIME
              then st\<lparr>sw_retrans := sw_retrans st + 1,
                      sw_sent := sw_sent st @ [sw_message0 st]\<rparr>
              else st) polls"
| "sw_wait st (Data a # polls) = Some (st\<lparr>sw_seqNum := a\<rparr>, polls)"

text \<open>Lines 42 to 57: the \<open>do\<close> loop of one message.\<close>

function sw_deliver :: "sw_state \<Rightarrow> sw_poll list \<Rightarrow> (sw_state \<times> sw_poll list) option" where
  "sw_deliver st polls =
     (case sw_wait (st\<lparr>sw_sent := sw_sent st @ [sw_message0 st]\<rparr>) polls of
        None \<Rightarrow> None
      | Some (st1, polls1) \<Rightarrow>
          (if sw_seqNum st1 \<noteq> sw_message0 st1
           then sw_deliver
                  (st1\<lparr>sw_retrans := sw_retrans st1 + (sw_seqNum st1 XOR sw_message0 st1)\<rparr>)
                  polls1
           else Some (st1\<lparr>sw_retrans := sw_retrans st1 + (sw_seqNum st1 XOR sw_message0 st1)\<rparr>,
                      polls1)))"
  by pat_completeness auto
termination
proof (relation "measure (\<lambda>(st, polls). length polls)")
  show "wf (measure (\<lambda>(st, polls). length polls))" by simp
next
  fix st :: sw_state and polls x2 st1 polls1
  assume "sw_wait (st\<lparr>sw_sent := sw_sent st @ [sw_message0 st]\<rparr>) polls = Some x2"
    and "(st1, polls1) = x2"
  then have w: "sw_wait (st\<lparr>sw_sent := sw_sent st @ [sw_message0 st]\<rparr>) polls = Some (st1, polls1)"
    by simp
  have "sw_wait s ps = Some (s1, ps1) \<Longrightarrow> length ps1 < length ps" for s ps s1 ps1
    by (induction s ps rule: sw_wait.induct) (auto split: if_splits)
  from this [OF w]
  show "((st1\<lparr>sw_retrans := sw_retrans st1 + (sw_seqNum st1 XOR sw_message0 st1)\<rparr>, polls1),
         (st, polls)) \<in> measure (\<lambda>(st, polls). length polls)"
    by simp
qed

declare sw_deliver.simps [simp del]

text \<open>Lines 39 to 58: the \<open>for\<close> loop over the messages.\<close>

function sw_for :: "int \<Rightarrow> int \<Rightarrow> sw_state \<Rightarrow> sw_poll list \<Rightarrow> sw_state option" where
  "sw_for max_msgs msgNum st polls =
     (if msgNum < max_msgs
      then (case sw_deliver (st\<lparr>sw_message0 := msgNum AND 1\<rparr>) polls of
              None \<Rightarrow> None
            | Some (st1, polls1) \<Rightarrow> sw_for max_msgs (msgNum + 1) st1 polls1)
      else Some st)"
  by pat_completeness auto
termination
  by (relation "measure (\<lambda>(max_msgs, msgNum, st, polls). nat (max_msgs - msgNum))") auto

declare sw_for.simps [simp del]

text \<open>
  The function: the returned counter and the frames sent, for the caller's
  \<open>message[0]\<close> and the outcomes of the successive polls.
\<close>

definition clientStopWait :: "int \<Rightarrow> int \<Rightarrow> sw_poll list \<Rightarrow> (int \<times> int list) option" where
  "clientStopWait max_msgs message0 polls =
     map_option (\<lambda>st. (sw_retrans st, sw_sent st))
       (sw_for max_msgs 0
          \<lparr>sw_retrans = 0, sw_seqNum = 1, sw_message0 = message0, sw_sent = []\<rparr> polls)"

section \<open>ackAdvance\<close>

text \<open>
  Lines 167 to 181. The socket is represented by what \<open>pollRecvFrom\<close> finds:
  \<open>None\<close> when no datagram is waiting, \<open>Some recAckNum\<close> when one is, carrying that
  \<open>int\<close>.
\<close>

definition ackAdvance :: "int option \<Rightarrow> int \<Rightarrow> int \<Rightarrow> int" where
  "ackAdvance dgram lastSeqRec windowSize =
     (case dgram of
        None \<Rightarrow> 0
      | Some recAckNum \<Rightarrow>
          if (recAckNum - (lastSeqRec + 1) + seqRange windowSize) smod seqRange windowSize
               < windowSize
          then (recAckNum - lastSeqRec + seqRange windowSize) smod seqRange windowSize
          else 0)"

section \<open>clientSlidingWindow\<close>

text \<open>
  What the function hands to \<open>sendTo\<close> and when it restarts its timer.
  \<open>SendMessage s\<close> is \<open>sendTo((char*)message, ...)\<close> while \<open>message[0]\<close> is \<open>s\<close>;
  \<open>SendAt v\<close> is a \<open>sendTo\<close> whose data pointer is the \<open>int\<close> value \<open>v\<close> converted to
  \<open>char*\<close> (line 127 passes \<open>(char*)buffer[...]\<close>, an element, not its address).
\<close>

datatype cw_event = SendMessage int | SendAt int | TimerStart

record cw_state =
  cw_retrans :: int
  cw_lastAckRec :: int
  cw_lastFrameSent :: int
  cw_buffer :: "int list"
  cw_message :: "int list"
  cw_trace :: "cw_event list"

text \<open>
  Why a run of the model stops early: an access outside an array, or the clock
  readings are used up while the function is in the loop of line 121.
\<close>

datatype cw_stop = Outside int | Waiting

text \<open>
  Lines 110 to 115. The array \<open>buffer\<close> has \<open>(windowSize + 1) * max\<close> elements and is
  not initialised; \<open>junk\<close> gives its indeterminate contents.
\<close>

definition cw_init :: "int \<Rightarrow> int list \<Rightarrow> int \<Rightarrow> (nat \<Rightarrow> int) \<Rightarrow> cw_state" where
  "cw_init max_msgs message windowSize junk =
     \<lparr> cw_retrans = 0, cw_lastAckRec = 0, cw_lastFrameSent = 0,
       cw_buffer = map junk [0 ..< nat ((windowSize + 1) * max_msgs)],
       cw_message = message, cw_trace = [] \<rparr>"

text \<open>Line 121: the test for a full window.\<close>

definition cw_full :: "int \<Rightarrow> cw_state \<Rightarrow> bool" where
  "cw_full windowSize st =
     (cw_lastAckRec st = (cw_lastFrameSent st + 1) smod (windowSize + 1))"

text \<open>Lines 125 and 126: the number of frames the function takes to be outstanding.\<close>

definition cw_outstanding :: "int \<Rightarrow> cw_state \<Rightarrow> int" where
  "cw_outstanding windowSize st =
     (cw_lastFrameSent st - cw_lastAckRec st + windowSize + 1) smod (windowSize + 1)"

text \<open>Lines 124 to 130, for the values \<open>i\<close> of the loop variable in order.\<close>

fun cw_resend :: "int \<Rightarrow> int \<Rightarrow> cw_state \<Rightarrow> int list \<Rightarrow> cw_stop + cw_state" where
  "cw_resend max_msgs windowSize st [] = Inr st"
| "cw_resend max_msgs windowSize st (i # is) =
     (if in_bounds (cw_buffer st) (((cw_lastAckRec st + i) smod (windowSize + 1)) * max_msgs)
      then cw_resend max_msgs windowSize
             (st\<lparr>cw_trace := cw_trace st @
                     [SendAt (cw_buffer st !
                        nat (((cw_lastAckRec st + i) smod (windowSize + 1)) * max_msgs))],
                 cw_retrans := cw_retrans st + 1\<rparr>) is
      else Inl (Outside (((cw_lastAckRec st + i) smod (windowSize + 1)) * max_msgs)))"

text \<open>
  Lines 122 to 136: one pass through the body of the \<open>while\<close> loop, for the clock
  reading \<open>lap\<close> and what the poll inside \<open>ackAdvance\<close> finds.
\<close>

definition cw_pass :: "int \<Rightarrow> int \<Rightarrow> cw_state \<Rightarrow> int \<Rightarrow> int option \<Rightarrow> cw_stop + cw_state" where
  "cw_pass max_msgs windowSize st lap dgram =
     (case (if lap > MAX_TIME
            then (case cw_resend max_msgs windowSize st [1 .. cw_outstanding windowSize st] of
                    Inl e \<Rightarrow> Inl e
                  | Inr st1 \<Rightarrow> Inr (st1\<lparr>cw_trace := cw_trace st1 @ [TimerStart]\<rparr>))
            else Inr st) of
        Inl e \<Rightarrow> Inl e
      | Inr st2 \<Rightarrow>
          if in_bounds (cw_buffer st2) ((cw_lastAckRec st2 + 1) * max_msgs)
          then Inr (st2\<lparr>cw_lastAckRec :=
                      (cw_lastAckRec st2 +
                         ackAdvance dgram
                           (cw_buffer st2 ! nat ((cw_lastAckRec st2 + 1) * max_msgs))
                           windowSize) smod (windowSize + 1)\<rparr>)
          else Inl (Outside ((cw_lastAckRec st2 + 1) * max_msgs)))"

text \<open>
  The polls of \<open>ackAdvance\<close> take their outcomes from a list; after its end no datagram
  arrives any more.
\<close>

definition next_poll :: "int option list \<Rightarrow> int option \<times> int option list" where
  "next_poll polls = (case polls of [] \<Rightarrow> (None, []) | d # ds \<Rightarrow> (d, ds))"

text \<open>Lines 121 to 137: the \<open>while\<close> loop, one clock reading per pass.\<close>

fun cw_wait ::
  "int \<Rightarrow> int \<Rightarrow> cw_state \<Rightarrow> int list \<Rightarrow> int option list \<Rightarrow>
   cw_stop + (cw_state \<times> int list \<times> int option list)" where
  "cw_wait max_msgs windowSize st [] polls =
     (if cw_full windowSize st then Inl Waiting else Inr (st, [], polls))"
| "cw_wait max_msgs windowSize st (lap # laps) polls =
     (if cw_full windowSize st
      then (case cw_pass max_msgs windowSize st lap (fst (next_poll polls)) of
              Inl e \<Rightarrow> Inl e
            | Inr st1 \<Rightarrow> cw_wait max_msgs windowSize st1 laps (snd (next_poll polls)))
      else Inr (st, lap # laps, polls))"

text \<open>
  Lines 143 to 145: the copy of \<open>message\<close> into the slot, for the values \<open>i\<close> of the
  loop variable in order.
\<close>

fun cw_copy :: "int \<Rightarrow> cw_state \<Rightarrow> int list \<Rightarrow> cw_stop + cw_state" where
  "cw_copy max_msgs st [] = Inr st"
| "cw_copy max_msgs st (i # is) =
     (if \<not> in_bounds (cw_message st) i then Inl (Outside i)
      else if \<not> in_bounds (cw_buffer st) (cw_lastFrameSent st * max_msgs + i)
      then Inl (Outside (cw_lastFrameSent st * max_msgs + i))
      else cw_copy max_msgs
             (st\<lparr>cw_buffer := (cw_buffer st)[nat (cw_lastFrameSent st * max_msgs + i) :=
                                               cw_message st ! nat i]\<rparr>) is)"

text \<open>
  Lines 139 to 148: send message \<open>msgNum\<close>, store it, try to advance. \<open>msgInts\<close> is
  \<open>sizeof(message) / sizeof(int)\<close>, where \<open>message\<close> is a parameter of type
  \<open>int[]\<close>, that is, a pointer: 2 where pointers have 8 bytes, 1 where they have 4.
\<close>

definition cw_send ::
  "int \<Rightarrow> int \<Rightarrow> int \<Rightarrow> int \<Rightarrow> cw_state \<Rightarrow> int option \<Rightarrow> cw_stop + cw_state" where
  "cw_send max_msgs windowSize msgInts msgNum st dgram =
     (if \<not> in_bounds (cw_message st) 0 then Inl (Outside 0)
      else
        (case cw_copy max_msgs
                (st\<lparr>cw_message := (cw_message st)[0 := msgNum smod seqRange windowSize],
                    cw_trace := cw_trace st @ [SendMessage (msgNum smod seqRange windowSize)],
                    cw_lastFrameSent := (cw_lastFrameSent st + 1) smod (windowSize + 1)\<rparr>)
                [0 .. msgInts - 1] of
           Inl e \<Rightarrow> Inl e
         | Inr st1 \<Rightarrow>
             if in_bounds (cw_buffer st1)
                  (((cw_lastAckRec st1 + 1) smod (windowSize + 1)) * max_msgs)
             then Inr (st1\<lparr>cw_lastAckRec :=
                         (cw_lastAckRec st1 +
                            ackAdvance dgram
                              (cw_buffer st1 !
                                 nat (((cw_lastAckRec st1 + 1) smod (windowSize + 1)) * max_msgs))
                              windowSize) smod (windowSize + 1)\<rparr>)
             else Inl (Outside (((cw_lastAckRec st1 + 1) smod (windowSize + 1)) * max_msgs))))"

text \<open>Lines 119 to 148: the body of the \<open>for\<close> loop for message \<open>msgNum\<close>.\<close>

definition cw_body ::
  "int \<Rightarrow> int \<Rightarrow> int \<Rightarrow> int \<Rightarrow> cw_state \<Rightarrow> int list \<Rightarrow> int option list \<Rightarrow>
   cw_stop + (cw_state \<times> int list \<times> int option list)" where
  "cw_body max_msgs windowSize msgInts msgNum st laps polls =
     (case cw_wait max_msgs windowSize (st\<lparr>cw_trace := cw_trace st @ [TimerStart]\<rparr>) laps polls of
        Inl e \<Rightarrow> Inl e
      | Inr (st1, laps1, polls1) \<Rightarrow>
          (case cw_send max_msgs windowSize msgInts msgNum st1 (fst (next_poll polls1)) of
             Inl e \<Rightarrow> Inl e
           | Inr st2 \<Rightarrow> Inr (st2, laps1, snd (next_poll polls1))))"

text \<open>Lines 118 to 149: the \<open>for\<close> loop.\<close>

function cw_for ::
  "int \<Rightarrow> int \<Rightarrow> int \<Rightarrow> int \<Rightarrow> cw_state \<Rightarrow> int list \<Rightarrow> int option list \<Rightarrow> cw_stop + cw_state" where
  "cw_for max_msgs windowSize msgInts msgNum st laps polls =
     (if msgNum < max_msgs
      then (case cw_body max_msgs windowSize msgInts msgNum st laps polls of
              Inl e \<Rightarrow> Inl e
            | Inr (st1, laps1, polls1) \<Rightarrow>
                cw_for max_msgs windowSize msgInts (msgNum + 1) st1 laps1 polls1)
      else Inr st)"
  by pat_completeness auto
termination
  by (relation "measure (\<lambda>(max_msgs, windowSize, msgInts, msgNum, st, laps, polls).
        nat (max_msgs - msgNum))") auto

declare cw_for.simps [simp del]

text \<open>
  The function: the returned counter and the trace of sends and timer restarts, for
  the clock readings \<open>laps\<close> and the poll outcomes \<open>polls\<close>.
\<close>

definition clientSlidingWindow ::
  "int \<Rightarrow> int list \<Rightarrow> int \<Rightarrow> int \<Rightarrow> (nat \<Rightarrow> int) \<Rightarrow> int list \<Rightarrow> int option list \<Rightarrow>
   cw_stop + (int \<times> cw_event list)" where
  "clientSlidingWindow max_msgs message windowSize msgInts junk laps polls =
     (case cw_for max_msgs windowSize msgInts 0
             (cw_init max_msgs message windowSize junk) laps polls of
        Inl e \<Rightarrow> Inl e
      | Inr st \<Rightarrow> Inr (cw_retrans st, cw_trace st))"

section \<open>Properties\<close>

subsection \<open>Truncating remainder\<close>

lemma smod_nonneg: "0 \<le> a \<Longrightarrow> 0 < b \<Longrightarrow> (a::int) smod b = a mod b"
  by (cases "a = 0") (simp_all add: signed_modulo_int_def)

lemma mod_second_lap:
  fixes x m :: int
  assumes "m \<le> x" "x < 2 * m"
  shows "x mod m = x - m"
proof -
  have "(x - m) mod m = x - m" using assms by (intro mod_pos_pos_trivial) simp_all
  moreover have "(x - m) mod m = x mod m" by simp
  ultimately show ?thesis by simp
qed

subsection \<open>serverEarlyRetrans: what every reachable state satisfies\<close>

lemma er_next_mod:
  "er_wf w st \<Longrightarrow> (er_lastAckSent st + 1) smod seqRange w = (er_lastAckSent st + 1) mod seqRange w"
  by (simp add: er_wf_def smod_nonneg seqRange_def)

lemma er_next_in_bounds:
  "er_wf w st \<Longrightarrow> in_bounds (er_buffer st) ((er_lastAckSent st + 1) mod seqRange w)"
proof -
  assume wf: "er_wf w st"
  then have R: "0 < seqRange w" by (simp add: er_wf_def seqRange_def)
  then have "(er_lastAckSent st + 1) mod seqRange w < seqRange w"
    and "0 \<le> (er_lastAckSent st + 1) mod seqRange w"
    by simp_all
  with wf show ?thesis by (simp add: er_wf_def in_bounds_def)
qed

lemma er_last_in_bounds:
  "er_wf w st \<Longrightarrow> in_bounds (er_buffer st) (er_lastAckSent st)"
  by (simp add: er_wf_def in_bounds_def)

lemma er_advance_noop:
  "er_wf w st \<Longrightarrow> \<not> er_buffer st ! nat ((er_lastAckSent st + 1) mod seqRange w)
     \<Longrightarrow> er_advance w st = Inr st"
  using er_next_in_bounds [of w st] er_next_mod [of w st]
  by (subst er_advance.simps) simp

lemma er_advance_runs:
  "er_wf w st \<Longrightarrow>
     \<exists>st' k. er_advance w st = Inr st' \<and> er_wf w st'
        \<and> \<not> er_buffer st' ! nat ((er_lastAckSent st' + 1) mod seqRange w)
        \<and> er_msgToAck st' = er_msgToAck st
        \<and> er_lastAckSent st' = (er_lastAckSent st + int k) mod seqRange w
        \<and> (\<forall>j<k. er_buffer st ! nat ((er_lastAckSent st + 1 + int j) mod seqRange w))
        \<and> (\<forall>i. er_buffer st' ! i \<longrightarrow> er_buffer st ! i)"
proof (induction w st rule: er_advance.induct)
  case (1 w st)
  let ?R = "seqRange w" and ?l = "er_lastAckSent st" and ?b = "er_buffer st"
  let ?n = "(?l + 1) mod ?R"
  note wf = \<open>er_wf w st\<close>
  have R: "0 < ?R" using wf by (simp add: er_wf_def seqRange_def)
  have nm: "(?l + 1) smod ?R = ?n" using wf by (rule er_next_mod)
  have nb: "in_bounds ?b ?n" using wf by (rule er_next_in_bounds)
  have lb: "in_bounds ?b ?l" using wf by (rule er_last_in_bounds)
  show ?case
  proof (cases "?b ! nat ?n")
    case False
    have "er_advance w st = Inr st" using wf False by (rule er_advance_noop)
    moreover have "?l = (?l + int 0) mod ?R" using wf by (simp add: er_wf_def)
    ultimately show ?thesis using wf False by (intro exI [of _ st] exI [of _ 0]) simp
  next
    case True
    let ?st1 = "st\<lparr>er_buffer := ?b[nat ?l := False], er_lastAckSent := (?l + 1) smod ?R,
                  er_largestAccFrame := (er_largestAccFrame st + 1) smod ?R\<rparr>"
    have wf1: "er_wf w ?st1" using wf R by (simp add: er_wf_def nm)
    have unfold: "er_advance w st = er_advance w ?st1"
      using nb lb True by (subst er_advance.simps) (simp add: nm)
    from "1.IH" [OF _ _ _ wf1] nb lb True
    obtain st' k where res: "er_advance w ?st1 = Inr st'" and wf': "er_wf w st'"
      and settled: "\<not> er_buffer st' ! nat ((er_lastAckSent st' + 1) mod ?R)"
      and cnt: "er_msgToAck st' = er_msgToAck ?st1"
      and pos: "er_lastAckSent st' = (er_lastAckSent ?st1 + int k) mod ?R"
      and run: "\<forall>j<k. er_buffer ?st1 ! nat ((er_lastAckSent ?st1 + 1 + int j) mod ?R)"
      and sub: "\<forall>i. er_buffer st' ! i \<longrightarrow> er_buffer ?st1 ! i"
      by (auto simp: nm)
    have upd: "(?b[nat ?l := False]) ! i \<Longrightarrow> ?b ! i" for i
      by (cases "i = nat ?l") (use lb in \<open>auto simp: in_bounds_def\<close>)
    have l1: "er_lastAckSent ?st1 = ?n" by (simp add: nm)
    have "er_lastAckSent st' = (?n + int k) mod ?R" using pos unfolding l1 .
    also have "\<dots> = (?l + 1 + int k) mod ?R" by (simp add: mod_simps)
    also have "\<dots> = (?l + int (Suc k)) mod ?R" by (simp add: add.commute add.left_commute)
    finally have pos': "er_lastAckSent st' = (?l + int (Suc k)) mod ?R" .
    have run': "?b ! nat ((?l + 1 + int j) mod ?R)" if "j < Suc k" for j
    proof (cases j)
      case 0
      with True show ?thesis by simp
    next
      case (Suc j')
      with that have "j' < k" by simp
      with run have "er_buffer ?st1 ! nat ((er_lastAckSent ?st1 + 1 + int j') mod ?R)"
        by blast
      then have "(?b[nat ?l := False]) ! nat ((?n + 1 + int j') mod ?R)"
        unfolding l1 by simp
      then have "?b ! nat ((?n + 1 + int j') mod ?R)" by (rule upd)
      moreover have "(?n + 1 + int j') mod ?R = (?l + 1 + int j) mod ?R"
      proof -
        have "(?n + (1 + int j')) mod ?R = (?l + 1 + (1 + int j')) mod ?R"
          by (rule mod_add_left_eq)
        then show ?thesis using Suc by (simp add: add.assoc)
      qed
      ultimately show ?thesis by simp
    qed
    have sub': "\<forall>i. er_buffer st' ! i \<longrightarrow> ?b ! i" using sub upd by auto
    show ?thesis
      using res wf' settled cnt pos' run' sub' unfold
      by (intro exI [of _ st'] exI [of _ "Suc k"]) simp
  qed
qed


lemma er_init_settled: "0 < w \<Longrightarrow> er_settled w (er_init w)"
  by (simp add: er_settled_def er_wf_def er_init_def seqRange_def)

lemma er_mark_wf:
  "er_wf w st \<Longrightarrow> er_mark w st m0 = Inr st1 \<Longrightarrow>
     er_wf w st1 \<and> er_lastAckSent st1 = er_lastAckSent st \<and> er_msgToAck st1 = er_msgToAck st"
  by (auto simp: er_mark_def er_wf_def split: if_splits)

lemma er_mark_buffer:
  assumes "er_mark w st m0 = Inr st1" and "er_buffer st1 ! i" and "int i \<noteq> m0"
  shows "er_buffer st ! i"
proof (cases "0 < er_offset w (er_largestAccFrame st) m0 \<and> in_bounds (er_buffer st) m0")
  case True
  with assms(1) have b: "er_buffer st1 = (er_buffer st)[nat m0 := True]"
    by (auto simp: er_mark_def)
  from True assms(3) have "i \<noteq> nat m0" by (auto simp: in_bounds_def)
  with assms(2) b show ?thesis by simp
next
  case False
  with assms(1) have "st1 = st" by (auto simp: er_mark_def split: if_splits)
  with assms(2) show ?thesis by simp
qed

lemma er_receive_settled:
  assumes "er_wf w st" and "er_receive w st m0 = Inr (st', acks)"
  shows "er_settled w st'"
proof -
  from assms(2) obtain st1 st2 where m: "er_mark w st m0 = Inr st1"
    and a: "er_advance w st1 = Inr st2"
    and s: "st' = st2 \<or> st' = st2\<lparr>er_msgToAck := er_msgToAck st2 + 1\<rparr>"
    by (auto simp: er_receive_def split: sum.splits if_splits)
  from er_mark_wf [OF assms(1) m] have "er_wf w st1" by simp
  from er_advance_runs [OF this] a
  have "er_wf w st2 \<and> \<not> er_buffer st2 ! nat ((er_lastAckSent st2 + 1) mod seqRange w)"
    by auto
  with s show ?thesis by (auto simp: er_settled_def er_wf_def)
qed

lemma er_loop_settled:
  "er_settled w st \<Longrightarrow> er_loop w mx st frames = Inr (st', acks) \<Longrightarrow> er_settled w st'"
proof (induction frames arbitrary: st acks)
  case Nil
  then show ?case by simp
next
  case (Cons m0 frames)
  show ?case
  proof (cases "er_msgToAck st < mx")
    case False
    with Cons.prems show ?thesis by simp
  next
    case True
    with Cons.prems(2) obtain st1 acks1 acks2 where r: "er_receive w st m0 = Inr (st1, acks1)"
      and l: "er_loop w mx st1 frames = Inr (st', acks2)"
      by (auto split: sum.splits)
    from Cons.prems(1) have "er_wf w st" by (simp add: er_settled_def)
    from er_receive_settled [OF this r] have "er_settled w st1" .
    from Cons.IH [OF this l] show ?thesis .
  qed
qed

lemma er_reachable_settled:
  "0 < w \<Longrightarrow> serverEarlyRetrans mx w frames = Inr (st, acks) \<Longrightarrow> er_settled w st"
  unfolding serverEarlyRetrans_def by (rule er_loop_settled [OF er_init_settled])

lemma er_receive_received:
  assumes wf: "er_wf w st" and r: "er_receive w st m0 = Inr (st', acks)"
    and occ: "\<And>i. in_bounds (er_buffer st) i \<Longrightarrow> er_buffer st ! nat i \<Longrightarrow> i \<in> S"
    and i: "in_bounds (er_buffer st') i" "er_buffer st' ! nat i"
  shows "i \<in> insert m0 S"
proof -
  from r obtain st1 st2 where m: "er_mark w st m0 = Inr st1"
    and a: "er_advance w st1 = Inr st2"
    and s: "er_buffer st' = er_buffer st2"
    by (auto simp: er_receive_def split: sum.splits if_splits)
  from er_mark_wf [OF wf m] have wf1: "er_wf w st1" by simp
  from er_advance_runs [OF wf1] a
  have wf2: "er_wf w st2" and sub: "\<forall>i. er_buffer st2 ! i \<longrightarrow> er_buffer st1 ! i"
    by auto
  from i s sub have i1: "er_buffer st1 ! nat i" by simp
  from wf wf1 wf2 s i(1) have ib: "in_bounds (er_buffer st) i"
    by (simp add: er_wf_def in_bounds_def)
  show ?thesis
  proof (cases "i = m0")
    case True
    then show ?thesis by simp
  next
    case False
    with ib have "int (nat i) \<noteq> m0" by (simp add: in_bounds_def)
    with m i1 have "er_buffer st ! nat i" by (rule er_mark_buffer)
    with occ [OF ib] show ?thesis by simp
  qed
qed

lemma er_loop_received:
  "er_wf w st \<Longrightarrow> er_loop w mx st frames = Inr (st', acks) \<Longrightarrow>
   (\<And>i. in_bounds (er_buffer st) i \<Longrightarrow> er_buffer st ! nat i \<Longrightarrow> i \<in> S) \<Longrightarrow>
   in_bounds (er_buffer st') i \<Longrightarrow> er_buffer st' ! nat i \<Longrightarrow> i \<in> S \<union> set frames"
proof (induction frames arbitrary: st acks S)
  case Nil
  then show ?case by simp
next
  case (Cons m0 frames)
  show ?case
  proof (cases "er_msgToAck st < mx")
    case False
    with Cons.prems show ?thesis by simp
  next
    case True
    with Cons.prems(2) obtain st1 acks1 acks2 where r: "er_receive w st m0 = Inr (st1, acks1)"
      and l: "er_loop w mx st1 frames = Inr (st', acks2)"
      by (auto split: sum.splits)
    from er_receive_settled [OF Cons.prems(1) r] have wf1: "er_wf w st1"
      by (simp add: er_settled_def)
    have "i \<in> insert m0 S \<union> set frames"
    proof (rule Cons.IH [OF wf1 l _ Cons.prems(4,5)])
      fix j assume "in_bounds (er_buffer st1) j" "er_buffer st1 ! nat j"
      with er_receive_received [OF Cons.prems(1) r, of S j] Cons.prems(3)
      show "j \<in> insert m0 S" by blast
    qed
    then show ?thesis by auto
  qed
qed

lemma er_reachable_received:
  assumes "0 < w" and "serverEarlyRetrans mx w frames = Inr (st, acks)"
    and "in_bounds (er_buffer st) i" and "er_buffer st ! nat i"
  shows "i \<in> set frames"
proof -
  have wf0: "er_wf w (er_init w)" using assms(1) er_init_settled by (simp add: er_settled_def)
  have "i \<in> {} \<union> set frames"
  proof (rule er_loop_received [OF wf0 _ _ assms(3,4)])
    show "er_loop w mx (er_init w) frames = Inr (st, acks)"
      using assms(2) by (simp add: serverEarlyRetrans_def)
  next
    fix j assume "in_bounds (er_buffer (er_init w)) j" "er_buffer (er_init w) ! nat j"
    then have "nat j < nat (seqRange w)" "replicate (nat (seqRange w)) False ! nat j"
      by (auto simp: er_init_def in_bounds_def nat_less_iff split: if_splits)
    then show "j \<in> {}" by simp
  qed
  then show ?thesis by simp
qed

subsection \<open>serverEarlyRetrans: the claims\<close>

text \<open>
  C5. In every state that the server reaches, and for every frame whose mark (lines 217
  to 219) stays inside the array, the loop of lines 221 to 225 ends, and it moves
  \<open>lastAckSent\<close> forward by some number \<open>k\<close> of unit steps such that each of the \<open>k\<close>
  entries it moved onto was marked when the loop began and is the sequence number of a
  frame that was received. So \<open>lastAckSent\<close> never moves past a sequence number that has
  not been received.
\<close>

theorem er_advance_no_gap:
  assumes "0 < windowSize"
    and "serverEarlyRetrans max_msgs windowSize frames = Inr (st, acks)"
    and "er_mark windowSize st m0 = Inr st1"
  shows "\<exists>st2 k. er_advance windowSize st1 = Inr st2
           \<and> er_lastAckSent st2 = (er_lastAckSent st1 + int k) mod seqRange windowSize
           \<and> (\<forall>j<k. er_buffer st1 ! nat ((er_lastAckSent st1 + 1 + int j) mod seqRange windowSize)
                  \<and> (er_lastAckSent st1 + 1 + int j) mod seqRange windowSize \<in> set (frames @ [m0]))"
proof -
  let ?R = "seqRange windowSize"
  from er_reachable_settled [OF assms(1,2)] have wf: "er_wf windowSize st"
    by (simp add: er_settled_def)
  from er_mark_wf [OF wf assms(3)] have wf1: "er_wf windowSize st1" by simp
  then have R: "0 < ?R" by (simp add: er_wf_def seqRange_def)
  from er_advance_runs [OF wf1] obtain st2 k where a: "er_advance windowSize st1 = Inr st2"
    and p: "er_lastAckSent st2 = (er_lastAckSent st1 + int k) mod ?R"
    and run: "\<forall>j<k. er_buffer st1 ! nat ((er_lastAckSent st1 + 1 + int j) mod ?R)"
    by blast
  have "(er_lastAckSent st1 + 1 + int j) mod ?R \<in> set (frames @ [m0])" if "j < k" for j
  proof -
    let ?i = "(er_lastAckSent st1 + 1 + int j) mod ?R"
    from that run have occ1: "er_buffer st1 ! nat ?i" by simp
    from R have rng: "0 \<le> ?i" "?i < ?R" by simp_all
    with wf have ib: "in_bounds (er_buffer st) ?i" by (simp add: er_wf_def in_bounds_def)
    show ?thesis
    proof (cases "?i = m0")
      case True
      then show ?thesis by simp
    next
      case False
      with rng have "int (nat ?i) \<noteq> m0" by simp
      with assms(3) occ1 have "er_buffer st ! nat ?i" by (rule er_mark_buffer)
      from er_reachable_received [OF assms(1,2) ib this] show ?thesis by simp
    qed
  qed
  with a p run show ?thesis by blast
qed

theorem er_advance_no_gap_witness:
  "(0::int) < 2
   \<and> serverEarlyRetrans 3 2 [1] =
       Inr (\<lparr>er_buffer = [False, True, False, False, False], er_lastAckSent = 4,
              er_largestAccFrame = 1, er_msgToAck = 1\<rparr>, [0])
   \<and> er_mark 2 \<lparr>er_buffer = [False, True, False, False, False], er_lastAckSent = 4,
                er_largestAccFrame = 1, er_msgToAck = 1\<rparr> 0 =
       Inr \<lparr>er_buffer = [True, True, False, False, False], er_lastAckSent = 4,
             er_largestAccFrame = 1, er_msgToAck = 1\<rparr>
   \<and> (\<exists>st2 k. er_advance 2 \<lparr>er_buffer = [True, True, False, False, False],
                     er_lastAckSent = 4, er_largestAccFrame = 1, er_msgToAck = 1\<rparr> = Inr st2
          \<and> er_lastAckSent st2 = (4 + int k) mod seqRange 2
          \<and> (\<forall>j<k. [True, True, False, False, False] ! nat ((4 + 1 + int j) mod seqRange 2)
                 \<and> (4 + 1 + int j) mod seqRange 2 \<in> set ([1] @ [0])))"
proof -
  let ?st = "\<lparr>er_buffer = [False, True, False, False, False], er_lastAckSent = 4,
              er_largestAccFrame = 1, er_msgToAck = 1\<rparr>"
  let ?st1 = "\<lparr>er_buffer = [True, True, False, False, False], er_lastAckSent = 4,
              er_largestAccFrame = 1, er_msgToAck = 1\<rparr>"
  have h1: "(0::int) < 2" by simp
  have h2: "serverEarlyRetrans 3 2 [1] = Inr (?st, [0])" by code_simp
  have h3: "er_mark 2 ?st 0 = Inr ?st1" by code_simp
  from er_advance_no_gap [OF h1 h2 h3] h1 h2 h3 show ?thesis by simp
qed

text \<open>
  C6. In every state that the server reaches, a frame whose computed offset is not
  positive leaves the whole state as it was: the occupancy map, \<open>lastAckSent\<close>,
  \<open>largestAccFrame\<close> and also \<open>msgToAck\<close>, so the frame is not counted and the receive
  loop repeats. The one acknowledgment sent is \<open>(lastAckSent + 1) mod (2 * windowSize + 1)\<close>.
\<close>

theorem er_stale_frame_discarded:
  assumes "0 < windowSize"
    and "serverEarlyRetrans max_msgs windowSize frames = Inr (st, acks)"
    and "er_offset windowSize (er_largestAccFrame st) m0 \<le> 0"
  shows "er_receive windowSize st m0 =
           Inr (st, [(er_lastAckSent st + 1) mod seqRange windowSize])"
proof -
  from er_reachable_settled [OF assms(1,2)] have wf: "er_wf windowSize st"
    and quiet: "\<not> er_buffer st ! nat ((er_lastAckSent st + 1) mod seqRange windowSize)"
    by (simp_all add: er_settled_def)
  from assms(3) have "er_mark windowSize st m0 = Inr st" by (simp add: er_mark_def)
  moreover from wf quiet have "er_advance windowSize st = Inr st" by (rule er_advance_noop)
  ultimately show ?thesis
    using assms(3) er_next_mod [OF wf] by (simp add: er_receive_def)
qed

theorem er_stale_frame_discarded_witness:
  "(0::int) < 2
   \<and> serverEarlyRetrans 3 2 [0, 1] =
       Inr (\<lparr>er_buffer = [False, True, False, False, False], er_lastAckSent = 1,
              er_largestAccFrame = 3, er_msgToAck = 2\<rparr>, [1, 2])
   \<and> er_offset 2 3 0 \<le> 0
   \<and> er_receive 2 \<lparr>er_buffer = [False, True, False, False, False], er_lastAckSent = 1,
                   er_largestAccFrame = 3, er_msgToAck = 2\<rparr> 0 =
       Inr (\<lparr>er_buffer = [False, True, False, False, False], er_lastAckSent = 1,
              er_largestAccFrame = 3, er_msgToAck = 2\<rparr>, [2])"
proof -
  let ?st = "\<lparr>er_buffer = [False, True, False, False, False], er_lastAckSent = 1,
              er_largestAccFrame = 3, er_msgToAck = 2\<rparr>"
  have h1: "(0::int) < 2" by simp
  have h2: "serverEarlyRetrans 3 2 [0, 1] = Inr (?st, [1, 2])" by code_simp
  have h3: "er_offset 2 (er_largestAccFrame ?st) 0 \<le> 0" by code_simp
  from er_stale_frame_discarded [OF h1 h2 h3] h1 h2 h3 show ?thesis
    by (simp add: seqRange_def)
qed

text \<open>
  The loop of lines 221 to 225 moves \<open>lastAckSent\<close> over the run of occupied entries
  that follows it and stops at the first free one (or after \<open>seqRange - 1\<close> steps,
  when every other entry is occupied).
\<close>

lemma er_advance_run_length:
  "er_wf w st \<Longrightarrow>
     \<exists>st' k. er_advance w st = Inr st'
        \<and> er_lastAckSent st' = (er_lastAckSent st + int k) mod seqRange w
        \<and> int k < seqRange w
        \<and> (\<forall>j<k. er_buffer st ! nat ((er_lastAckSent st + 1 + int j) mod seqRange w))
        \<and> (\<not> er_buffer st ! nat ((er_lastAckSent st + 1 + int k) mod seqRange w)
             \<or> int k = seqRange w - 1)"
proof (induction w st rule: er_advance.induct)
  case (1 w st)
  let ?R = "seqRange w" and ?l = "er_lastAckSent st" and ?b = "er_buffer st"
  let ?n = "(?l + 1) mod ?R"
  note wf = \<open>er_wf w st\<close>
  have R: "0 < ?R" "2 < ?R" using wf by (simp_all add: er_wf_def seqRange_def)
  have l: "0 \<le> ?l" "?l < ?R" and len: "length ?b = nat ?R" using wf by (simp_all add: er_wf_def)
  have nm: "(?l + 1) smod ?R = ?n" using wf by (rule er_next_mod)
  have nb: "in_bounds ?b ?n" using wf by (rule er_next_in_bounds)
  have lb: "in_bounds ?b ?l" using wf by (rule er_last_in_bounds)
  show ?case
  proof (cases "?b ! nat ?n")
    case False
    have "er_advance w st = Inr st" using wf False by (rule er_advance_noop)
    moreover have "?l = (?l + int 0) mod ?R" using l by simp
    ultimately show ?thesis using R False by (intro exI [of _ st] exI [of _ 0]) simp
  next
    case True
    let ?st1 = "st\<lparr>er_buffer := ?b[nat ?l := False], er_lastAckSent := (?l + 1) smod ?R,
                  er_largestAccFrame := (er_largestAccFrame st + 1) smod ?R\<rparr>"
    let ?b1 = "?b[nat ?l := False]"
    have wf1: "er_wf w ?st1" using wf R by (simp add: er_wf_def nm)
    have unfold: "er_advance w st = er_advance w ?st1"
      using nb lb True by (subst er_advance.simps) (simp add: nm)
    have l1: "er_lastAckSent ?st1 = ?n" by (simp add: nm)
    have b1: "er_buffer ?st1 = ?b1" by simp
    from "1.IH" [OF _ _ _ wf1] nb lb True
    obtain st' k where res: "er_advance w ?st1 = Inr st'"
      and pos: "er_lastAckSent st' = (?n + int k) mod ?R"
      and bound: "int k < ?R"
      and run: "\<forall>j<k. ?b1 ! nat ((?n + 1 + int j) mod ?R)"
      and stop: "\<not> ?b1 ! nat ((?n + 1 + int k) mod ?R) \<or> int k = ?R - 1"
      unfolding l1 b1 by (auto simp: nm)
    have cleared: "\<not> ?b1 ! nat ?l" using l len by simp
    have shift: "(?n + 1 + int j) mod ?R = (?l + 1 + int (Suc j)) mod ?R" for j
    proof -
      have "(?n + (1 + int j)) mod ?R = (?l + 1 + (1 + int j)) mod ?R"
        by (rule mod_add_left_eq)
      then show ?thesis by (simp add: add.assoc)
    qed
    have upd: "?b1 ! i \<Longrightarrow> ?b ! i" for i
      by (cases "i = nat ?l") (use lb in \<open>auto simp: in_bounds_def\<close>)
    have k_small: "int k < ?R - 1"
    proof (rule ccontr)
      assume "\<not> int k < ?R - 1"
      with bound have k: "int k = ?R - 1" by simp
      with R have "nat (?R - 2) < k" by simp
      with run have "?b1 ! nat ((?n + 1 + int (nat (?R - 2))) mod ?R)" by blast
      moreover have "(?n + 1 + int (nat (?R - 2))) mod ?R = ?l"
      proof -
        have "(?n + 1 + int (nat (?R - 2))) mod ?R = (?l + 1 + int (Suc (nat (?R - 2)))) mod ?R"
          by (rule shift)
        also have "?l + 1 + int (Suc (nat (?R - 2))) = ?l + ?R" using R by simp
        also have "(?l + ?R) mod ?R = ?l" using l by simp
        finally show ?thesis .
      qed
      ultimately show False using cleared by simp
    qed
    have pos': "er_lastAckSent st' = (?l + int (Suc k)) mod ?R"
    proof -
      have "(?n + int k) mod ?R = (?l + 1 + int k) mod ?R" by (simp add: mod_simps)
      also have "?l + 1 + int k = ?l + int (Suc k)" by simp
      finally show ?thesis using pos by simp
    qed
    have run': "?b ! nat ((?l + 1 + int j) mod ?R)" if "j < Suc k" for j
    proof (cases j)
      case 0
      with True show ?thesis by simp
    next
      case (Suc j')
      with that have "j' < k" by simp
      with run have "?b1 ! nat ((?n + 1 + int j') mod ?R)" by blast
      then have "?b ! nat ((?n + 1 + int j') mod ?R)" by (rule upd)
      then show ?thesis unfolding shift Suc .
    qed
    have stop': "\<not> ?b ! nat ((?l + 1 + int (Suc k)) mod ?R) \<or> int (Suc k) = ?R - 1"
    proof (cases "(?l + 1 + int (Suc k)) mod ?R = ?l")
      case True
      have ge: "?R \<le> ?l + 1 + int (Suc k)"
      proof (rule ccontr)
        assume "\<not> ?R \<le> ?l + 1 + int (Suc k)"
        then have "(?l + 1 + int (Suc k)) mod ?R = ?l + 1 + int (Suc k)"
          using l by (intro mod_pos_pos_trivial) simp_all
        with True show False by simp
      qed
      have "?l + 1 + int (Suc k) < 2 * ?R" using l k_small by simp
      with ge have "(?l + 1 + int (Suc k)) mod ?R = ?l + 1 + int (Suc k) - ?R"
        by (rule mod_second_lap)
      with True show ?thesis by simp
    next
      case False
      let ?e = "(?l + 1 + int (Suc k)) mod ?R"
      have e0: "0 \<le> ?e" using R by simp
      have ne: "nat ?e \<noteq> nat ?l"
        using False eq_nat_nat_iff [OF e0 l(1)] by blast
      from stop k_small have "\<not> ?b1 ! nat ((?n + 1 + int k) mod ?R)" by simp
      then have "\<not> ?b1 ! nat ?e" unfolding shift .
      with ne show ?thesis by simp
    qed
    from k_small have bound': "int (Suc k) < ?R" by simp
    show ?thesis
      using res pos' bound' run' stop' unfold
      by (intro exI [of _ st'] exI [of _ "Suc k"]) simp
  qed
qed

text \<open>
  In every state that the server reaches, a frame whose mark stays inside the array
  (every frame with an offset that is not positive, and every frame with a sequence
  number from 0 to \<open>2 * windowSize\<close>) is answered by exactly one acknowledgment. Its
  value is fixed by the state before and the frame: it is \<open>lastAckSent + 1 + k\<close> modulo
  the ring, where \<open>k\<close> is the length of the run of occupied entries after
  \<open>lastAckSent\<close> in the map with the frame marked, and \<open>lastAckSent\<close> moves by \<open>k\<close>.
\<close>

lemma er_receive_acks_next_expected:
  assumes "0 < windowSize"
    and "serverEarlyRetrans max_msgs windowSize frames = Inr (st, acks)"
    and "er_offset windowSize (er_largestAccFrame st) m0 \<le> 0 \<or> in_bounds (er_buffer st) m0"
  shows "\<exists>st' k.
           er_receive windowSize st m0 =
             Inr (st', [(er_lastAckSent st + 1 + int k) mod seqRange windowSize])
           \<and> er_lastAckSent st' = (er_lastAckSent st + int k) mod seqRange windowSize
           \<and> int k < seqRange windowSize
           \<and> (\<forall>j<k. (if 0 < er_offset windowSize (er_largestAccFrame st) m0
                       then (er_buffer st)[nat m0 := True] else er_buffer st) !
                      nat ((er_lastAckSent st + 1 + int j) mod seqRange windowSize))
           \<and> (\<not> (if 0 < er_offset windowSize (er_largestAccFrame st) m0
                    then (er_buffer st)[nat m0 := True] else er_buffer st) !
                   nat ((er_lastAckSent st + 1 + int k) mod seqRange windowSize)
                \<or> int k = seqRange windowSize - 1)"
proof -
  let ?R = "seqRange windowSize"
  let ?marked = "if 0 < er_offset windowSize (er_largestAccFrame st) m0
                 then (er_buffer st)[nat m0 := True] else er_buffer st"
  from er_reachable_settled [OF assms(1,2)] have wf: "er_wf windowSize st"
    by (simp add: er_settled_def)
  from assms(3) obtain st1 where m: "er_mark windowSize st m0 = Inr st1"
    by (cases "0 < er_offset windowSize (er_largestAccFrame st) m0")
       (auto simp: er_mark_def)
  from assms(3) m have b1: "er_buffer st1 = ?marked"
    by (cases "0 < er_offset windowSize (er_largestAccFrame st) m0")
       (auto simp: er_mark_def)
  from er_mark_wf [OF wf m] have wf1: "er_wf windowSize st1"
    and l1: "er_lastAckSent st1 = er_lastAckSent st" by simp_all
  from er_advance_run_length [OF wf1] obtain st2 k
    where a: "er_advance windowSize st1 = Inr st2"
      and pos: "er_lastAckSent st2 = (er_lastAckSent st + int k) mod ?R"
      and bound: "int k < ?R"
      and run: "\<forall>j<k. ?marked ! nat ((er_lastAckSent st + 1 + int j) mod ?R)"
      and stop: "\<not> ?marked ! nat ((er_lastAckSent st + 1 + int k) mod ?R) \<or> int k = ?R - 1"
    unfolding l1 b1 by blast
  from er_advance_runs [OF wf1] a have wf2: "er_wf windowSize st2" by auto
  have ack: "(er_lastAckSent st2 + 1) smod ?R = (er_lastAckSent st + 1 + int k) mod ?R"
  proof -
    have "(er_lastAckSent st2 + 1) smod ?R = (er_lastAckSent st2 + 1) mod ?R"
      using wf2 by (rule er_next_mod)
    also have "\<dots> = ((er_lastAckSent st + int k) mod ?R + 1) mod ?R" by (simp only: pos)
    also have "\<dots> = (er_lastAckSent st + int k + 1) mod ?R" by (rule mod_add_left_eq)
    also have "er_lastAckSent st + int k + 1 = er_lastAckSent st + 1 + int k" by simp
    finally show ?thesis .
  qed
  let ?st' = "if er_offset windowSize (er_largestAccFrame st) m0 \<le> 0
              then st2 else st2\<lparr>er_msgToAck := er_msgToAck st2 + 1\<rparr>"
  have r: "er_receive windowSize st m0 =
             Inr (?st', [(er_lastAckSent st + 1 + int k) mod ?R])"
    using m a ack by (simp add: er_receive_def)
  have p: "er_lastAckSent ?st' = (er_lastAckSent st + int k) mod ?R"
    using pos by simp
  from r p bound run stop show ?thesis by blast
qed

text \<open>
  C7. A received frame that passes the test of line 217 with a sequence number outside
  the array is not answered by an acknowledgment the program defines: line 218 writes
  outside \<open>buffer\<close> before line 228 is reached. With \<open>windowSize = 2\<close> this happens for
  the frame 6 in the initial state and for the frame 8 after the frames 0 and 1.
\<close>

theorem er_receive_faults_before_ack:
  "er_receive 2 (er_init 2) 6 = Inl (OutOfBounds 6)
   \<and> serverEarlyRetrans 3 2 [0, 1] =
       Inr (\<lparr>er_buffer = [False, True, False, False, False], er_lastAckSent = 1,
              er_largestAccFrame = 3, er_msgToAck = 2\<rparr>, [1, 2])
   \<and> er_offset 2 3 8 = 2
   \<and> er_receive 2 \<lparr>er_buffer = [False, True, False, False, False], er_lastAckSent = 1,
                   er_largestAccFrame = 3, er_msgToAck = 2\<rparr> 8 = Inl (OutOfBounds 8)"
  by code_simp

text \<open>
  C10. With \<open>windowSize = 2\<close> the array has 5 entries. In the initial state the frame
  with sequence number 6 gets the positive offset 2, and line 218 then writes
  \<open>buffer[6]\<close>: a positive offset does not imply a sequence number inside the array.
\<close>

theorem er_mark_outside_buffer:
  "er_offset 2 (er_largestAccFrame (er_init 2)) 6 = 2
   \<and> length (er_buffer (er_init 2)) = 5
   \<and> serverEarlyRetrans 3 2 [6] = Inl (OutOfBounds 6)
   \<and> serverEarlyRetrans 3 2 [- 4] = Inl (OutOfBounds (- 4))"
  by code_simp

subsection \<open>serverReliable\<close>

lemma sr_again_iff: "sr_again message0 msgToAck \<longleftrightarrow> message0 \<noteq> msgToAck"
  by (simp add: sr_again_def)

text \<open>
  C1. The condition of line 80 compares the received word with \<open>msgToAck\<close> itself, not
  with \<open>msgToAck mod 2\<close>. At \<open>msgToAck = 2\<close> a frame with the expected bit 0 is received
  again instead of being counted, and a frame whose first word is 2 is counted. A client
  that alternates 0 and 1 never gets the server beyond \<open>msgToAck = 2\<close>.
\<close>

theorem serverReliable_stalls:
  "sr_again 0 2 \<and> \<not> sr_again 2 2
   \<and> serverReliable 4 [0, 1, 0, 1, 0, 1] = (2, [0, 1, 0, 1, 0, 1])"
  by code_simp

subsection \<open>ackAdvance\<close>

text \<open>
  For an acknowledgment and a last sequence number that both lie in the ring, the
  function accepts exactly the acknowledgments within \<open>windowSize\<close> positions ahead of
  \<open>lastSeqRec + 1\<close>, returns the distance modulo the ring, and stays in
  \<open>[0, windowSize]\<close>.
\<close>

lemma ackAdvance_in_ring:
  assumes w: "0 < w" and s: "0 \<le> s" "s < seqRange w" and a: "0 \<le> a" "a < seqRange w"
  shows "ackAdvance (Some a) s w =
           (if (a - (s + 1)) mod seqRange w < w then (a - s) mod seqRange w else 0)"
    and "0 \<le> ackAdvance (Some a) s w" and "ackAdvance (Some a) s w \<le> w"
proof -
  let ?R = "seqRange w"
  have R: "0 < ?R" "w < ?R" using w by (simp_all add: seqRange_def)
  have t1: "(a - (s + 1) + ?R) smod ?R = (a - (s + 1)) mod ?R"
    using s a R by (simp add: smod_nonneg)
  have t2: "(a - s + ?R) smod ?R = (a - s) mod ?R"
    using s a R by (simp add: smod_nonneg)
  show eq: "ackAdvance (Some a) s w =
           (if (a - (s + 1)) mod ?R < w then (a - s) mod ?R else 0)"
    by (simp add: ackAdvance_def t1 t2)
  have le: "(a - s) mod ?R \<le> w" if d: "(a - (s + 1)) mod ?R < w"
  proof -
    let ?d = "(a - (s + 1)) mod ?R"
    have "0 \<le> ?d" using R by simp
    have "(a - s) mod ?R = (?d + 1) mod ?R" by (simp add: mod_simps)
    also have "\<dots> = ?d + 1" using d R \<open>0 \<le> ?d\<close> by (intro mod_pos_pos_trivial) simp_all
    finally show ?thesis using d by simp
  qed
  show "0 \<le> ackAdvance (Some a) s w" using R by (simp add: eq)
  show "ackAdvance (Some a) s w \<le> w" using le w by (simp add: eq)
qed

lemma ackAdvance_none: "ackAdvance None s w = 0"
  by (simp add: ackAdvance_def)

lemma ackAdvance_duplicate:
  assumes "0 < w" "0 \<le> s" "s < seqRange w"
  shows "ackAdvance (Some s) s w = 0"
proof -
  have "(s - (s + 1)) mod seqRange w = seqRange w - 1"
    using assms by (simp add: seqRange_def zmod_minus1)
  with assms ackAdvance_in_ring(1) [OF assms(1) assms(2,3) assms(2,3)] show ?thesis
    by (simp add: seqRange_def)
qed

text \<open>
  C2. With \<open>windowSize = 2\<close> and \<open>lastSeqRec = 0\<close>, the received acknowledgment \<open>-6\<close> is
  accepted, although \<open>(-6 - 1) mod 5 = 3\<close> is not below \<open>windowSize\<close>, and the result is
  \<open>-1\<close>, which is outside \<open>[0, windowSize]\<close>.
\<close>

theorem ackAdvance_negative:
  "ackAdvance (Some (- 6)) 0 2 = - 1 \<and> (- 6 - (0 + 1)) mod seqRange 2 = 3"
  by code_simp

subsection \<open>clientSlidingWindow\<close>

text \<open>
  While both cursors are in \<open>[0, windowSize]\<close>, the count of lines 125 and 126 is at
  most \<open>windowSize\<close> and the test of line 121 holds exactly when it is \<open>windowSize\<close>.
\<close>

lemma cw_window_bound:
  assumes w: "0 < w"
    and a: "0 \<le> cw_lastAckRec st" "cw_lastAckRec st \<le> w"
    and f: "0 \<le> cw_lastFrameSent st" "cw_lastFrameSent st \<le> w"
  shows "0 \<le> cw_outstanding w st" and "cw_outstanding w st \<le> w"
    and "cw_full w st \<longleftrightarrow> cw_outstanding w st = w"
proof -
  let ?a = "cw_lastAckRec st" and ?f = "cw_lastFrameSent st"
  have o: "cw_outstanding w st = (?f - ?a + w + 1) mod (w + 1)"
    using w a f by (simp add: cw_outstanding_def smod_nonneg)
  have fl: "cw_full w st \<longleftrightarrow> ?a = (?f + 1) mod (w + 1)"
    using w f by (simp add: cw_full_def smod_nonneg)
  show "0 \<le> cw_outstanding w st" using w by (simp add: o)
  have "(?f - ?a + w + 1) mod (w + 1) < w + 1" using w by (intro pos_mod_bound) simp
  then show "cw_outstanding w st \<le> w" by (simp add: o)
  show "cw_full w st \<longleftrightarrow> cw_outstanding w st = w"
  proof (cases "?a \<le> ?f")
    case True
    then have "(?f - ?a + w + 1) mod (w + 1) = ?f - ?a"
      using w a f by (subst mod_second_lap) simp_all
    moreover have "(?f + 1) mod (w + 1) = (if ?f = w then 0 else ?f + 1)"
      using w f by (simp add: mod_pos_pos_trivial)
    ultimately show ?thesis using True w a f by (auto simp: o fl)
  next
    case False
    then have "(?f - ?a + w + 1) mod (w + 1) = ?f - ?a + w + 1"
      using w a f by (intro mod_pos_pos_trivial) simp_all
    moreover have "(?f + 1) mod (w + 1) = ?f + 1"
      using False w a f by (intro mod_pos_pos_trivial) simp_all
    ultimately show ?thesis using False by (auto simp: o fl)
  qed
qed

text \<open>
  The loop of lines 124 to 130 leaves the cursors and the buffer alone, adds one to the
  counter per pass, and makes its \<open>sendTo\<close> calls in the order of the slots, each with
  the \<open>int\<close> stored at the start of the slot as its pointer.
\<close>

lemma cw_resend_counts:
  "cw_resend max_msgs w st slots = Inr st' \<Longrightarrow>
     cw_retrans st' = cw_retrans st + int (length slots)
     \<and> cw_trace st' = cw_trace st @
          map (\<lambda>i. SendAt (cw_buffer st ! nat (((cw_lastAckRec st + i) smod (w + 1)) * max_msgs)))
            slots
     \<and> cw_lastAckRec st' = cw_lastAckRec st \<and> cw_lastFrameSent st' = cw_lastFrameSent st
     \<and> cw_buffer st' = cw_buffer st"
proof (induction slots arbitrary: st)
  case Nil
  then show ?case by simp
next
  case (Cons i slots)
  let ?st1 = "st\<lparr>cw_trace := cw_trace st @
                     [SendAt (cw_buffer st !
                        nat (((cw_lastAckRec st + i) smod (w + 1)) * max_msgs))],
                 cw_retrans := cw_retrans st + 1\<rparr>"
  from Cons.prems have r: "cw_resend max_msgs w ?st1 slots = Inr st'"
    by (simp split: if_splits)
  from Cons.IH [OF r] show ?case by simp
qed

text \<open>
  C3. With \<open>windowSize = 2\<close>, three messages, no acknowledgment for the first two and a
  clock reading of 1501 in the full window: the counter grows by 2 and the timer is
  restarted, but the two \<open>sendTo\<close> calls of line 127 are handed the \<open>int\<close> values 0 and 1
  stored in \<open>buffer[3]\<close> and \<open>buffer[6]\<close>, converted to pointers, not the addresses of the
  frames stored there.
\<close>

theorem clientSlidingWindow_resends_from_stored_ints:
  "clientSlidingWindow 3 [0, 0] 2 2 (\<lambda>_. 7) [1501] [None, None, Some 2] =
     Inr (2, [TimerStart, SendMessage 0, TimerStart, SendMessage 1, TimerStart,
              SendAt 0, SendAt 1, TimerStart, SendMessage 2])"
  by code_simp

text \<open>
  C4. With \<open>windowSize = 2\<close> and three messages, the acknowledgment \<open>-6\<close> after the first
  frame makes \<open>ackAdvance\<close> return \<open>-1\<close> and \<open>lastAckRec\<close> become \<open>-1\<close>. The count of
  outstanding frames of lines 125 and 126 is then 2, which is \<open>windowSize\<close>, yet the test
  of line 121 fails and the next frame is sent; the test never holds again, and all three
  frames are sent without one accepted acknowledgment.
\<close>

theorem clientSlidingWindow_window_overrun:
  "cw_body 3 2 2 0 (cw_init 3 [0, 0] 2 (\<lambda>_. 7)) [] [Some (- 6)] =
     Inr (\<lparr>cw_retrans = 0, cw_lastAckRec = - 1, cw_lastFrameSent = 1,
            cw_buffer = [7, 7, 7, 0, 0, 7, 7, 7, 7], cw_message = [0, 0],
            cw_trace = [TimerStart, SendMessage 0]\<rparr>, [], [])
   \<and> cw_outstanding 2 \<lparr>cw_retrans = 0, cw_lastAckRec = - 1, cw_lastFrameSent = 1,
            cw_buffer = [7, 7, 7, 0, 0, 7, 7, 7, 7], cw_message = [0, 0],
            cw_trace = [TimerStart, SendMessage 0]\<rparr> = 2
   \<and> clientSlidingWindow 3 [0, 0] 2 2 (\<lambda>_. 7) [] [Some (- 6)] =
     Inr (0, [TimerStart, SendMessage 0, TimerStart, SendMessage 1, TimerStart,
              SendMessage 2])"
  by code_simp

text \<open>
  C9. With \<open>windowSize = 1\<close> and three messages the array has 6 elements. After an
  acknowledgment of the first frame \<open>lastAckRec\<close> is 1, which is \<open>windowSize\<close>; when the
  window is full at the third message, line 135 reads \<open>buffer[(1 + 1) * 3]\<close>, one past
  the last element. Line 147 reduces the slot modulo \<open>windowSize + 1\<close>; line 135 does not.
\<close>

theorem clientSlidingWindow_reads_past_buffer:
  "length (cw_buffer (cw_init 3 [0, 0] 1 (\<lambda>_. 7))) = 6
   \<and> clientSlidingWindow 3 [0, 0] 1 2 (\<lambda>_. 7) [0] [Some 1] = Inl (Outside 6)"
  by code_simp

subsection \<open>clientStopWait\<close>

text \<open>
  Message \<open>msgNum\<close> carries \<open>msgNum mod 2\<close>; the loop of one message ends only on an
  acknowledgment equal to the bit sent; between two bits the exclusive or is 1 exactly
  when they differ, so that a wrong bit adds one to the counter and starts the loop of
  the message again, with its \<open>sendTo\<close>.
\<close>

lemma sw_bit_mod: "(msgNum::int) AND 1 = msgNum mod 2"
  by (simp add: and_one_eq)

lemma sw_deliver_exit:
  "sw_deliver st polls = Some (st', polls') \<Longrightarrow> sw_seqNum st' = sw_message0 st'"
proof (induction st polls rule: sw_deliver.induct)
  case (1 st polls)
  from "1.prems" obtain st1 polls1
    where w: "sw_wait (st\<lparr>sw_sent := sw_sent st @ [sw_message0 st]\<rparr>) polls = Some (st1, polls1)"
    by (subst (asm) sw_deliver.simps) (auto split: option.splits)
  show ?case
  proof (cases "sw_seqNum st1 \<noteq> sw_message0 st1")
    case True
    with w "1.prems" have
      "sw_deliver (st1\<lparr>sw_retrans := sw_retrans st1 + (sw_seqNum st1 XOR sw_message0 st1)\<rparr>)
         polls1 = Some (st', polls')"
      by (subst (asm) sw_deliver.simps) simp
    from "1.IH" [OF w refl True this] show ?thesis .
  next
    case False
    with w "1.prems" show ?thesis
      by (subst (asm) sw_deliver.simps) auto
  qed
qed

lemma sw_xor_bits:
  assumes "a = 0 \<or> a = 1" and "b = 0 \<or> b = 1"
  shows "(a::int) XOR b = (if a = b then 0 else 1)"
  using assms by auto

lemma sw_deliver_wrong_bit:
  assumes "sw_wait (st\<lparr>sw_sent := sw_sent st @ [sw_message0 st]\<rparr>) polls = Some (st1, polls1)"
    and "sw_seqNum st1 \<noteq> sw_message0 st1"
    and "sw_seqNum st1 = 0 \<or> sw_seqNum st1 = 1"
    and "sw_message0 st1 = 0 \<or> sw_message0 st1 = 1"
  shows "sw_deliver st polls = sw_deliver (st1\<lparr>sw_retrans := sw_retrans st1 + 1\<rparr>) polls1"
proof -
  from assms(2-4) have "sw_seqNum st1 XOR sw_message0 st1 = 1"
    by (simp add: sw_xor_bits)
  with assms(1,2) show ?thesis
    by (subst sw_deliver.simps) simp
qed

text \<open>
  C8. Line 56 adds \<open>seqNum ^ message[0]\<close> to the counter. For one message with bit 0,
  answered first by the datagram 2 and then by 0, the frame is sent twice and the
  counter is 2; answered first by \<open>-1\<close>, the counter is \<open>-1\<close>. A received value that
  differs from the sent bit adds exactly one only when it is itself 0 or 1.
\<close>

theorem clientStopWait_counts_xor:
  "clientStopWait 1 0 [Data 2, Data 0] = Some (2, [0, 0])
   \<and> clientStopWait 1 0 [Data (- 1), Data 0] = Some (- 1, [0, 0])"
  by code_simp

end
